theory Spec2Isabelle
  imports Main
begin

section \<open>Texts, bytes and slices\<close>

text \<open>
  A Python \<open>str\<close> is a sequence of Unicode code points and its length counts code
  points, so a text is a list of code points (natural numbers). A Python \<open>bytes\<close>
  value is a sequence of 8-bit values, which is exactly a HOL \<open>string\<close> (a list of
  \<open>char\<close>). A source literal such as \<open>"0123456789;?"\<close> is written
  \<open>ustr ''0123456789;?''\<close>, and a one-character literal \<open>"m"\<close> as \<open>ord CHR ''m''\<close>.
\<close>

type_synonym ustring = "nat list"

type_synonym bytes = "char list"

definition ord :: "char \<Rightarrow> nat" where
  "ord c = of_char c"

definition ustr :: "string \<Rightarrow> ustring" where
  "ustr s = map ord s"

definition ESC :: nat where
  "ESC = 0x1B"

definition BEL :: nat where
  "BEL = 0x07"

definition BACKSLASH :: nat where
  "BACKSLASH = 0x5C"

text \<open>
  \<open>xs[a:b]\<close> for indices \<open>0 \<le> a\<close>, \<open>0 \<le> b\<close>: Python clamps both to the length,
  as \<open>take\<close> and \<open>drop\<close> do. \<open>xs[a:]\<close> is \<open>drop a xs\<close>.
\<close>

definition slice :: "'a list \<Rightarrow> nat \<Rightarrow> nat \<Rightarrow> 'a list" where
  "slice xs a b = take (b - a) (drop a xs)"

section \<open>parser.py: the tokenizer\<close>

text \<open>
  \<open>tokenize_ansi\<close> yields pairs \<open>(type, content)\<close>; the type is one of ten string
  literals, modelled as an enumeration:
  \<open>"text"\<close>, \<open>"sgr"\<close>, \<open>"cup"\<close>, \<open>"cursor_move"\<close>, \<open>"ed"\<close>, \<open>"el"\<close>, \<open>"dec"\<close>,
  \<open>"cursor_save"\<close>, \<open>"drop"\<close>, \<open>"other"\<close>.
\<close>

datatype token_type =
  Text | Sgr | Cup | Cursor_move | Ed | El | Dec | Cursor_save | Drop | Other

type_synonym token = "token_type \<times> ustring"

text \<open>
  The inner loop of the CSI branch:
  \<^verbatim>\<open>while j < len(text) and text[j] in "0123456789;?": j += 1\<close>
  It returns the final value of \<open>j\<close>.
\<close>

function skip_params :: "ustring \<Rightarrow> nat \<Rightarrow> nat" where
  "skip_params text j =
     (if j < length text \<and> text ! j \<in> set (ustr ''0123456789;?'')
      then skip_params text (j + 1) else j)"
  by pat_completeness auto
termination
  by (relation "measure (\<lambda>(text, j). length text - j)") auto

declare skip_params.simps [simp del]

text \<open>The \<open>if\<close>/\<open>elif\<close> chain that classifies a complete CSI sequence by its final byte.\<close>

definition classify :: "bool \<Rightarrow> nat \<Rightarrow> ustring \<Rightarrow> token_type" where
  "classify safe_mode final seq =
     (if final = ord CHR ''m'' then Sgr
      else if final \<in> set (ustr ''Hf'') then Cup
      else if final \<in> set (ustr ''ABCD'') then Cursor_move
      else if final = ord CHR ''J'' then Ed
      else if final = ord CHR ''K'' then El
      else if final \<in> set (ustr ''hl'') \<and> ord CHR ''?'' \<in> set seq then Dec
      else if final \<in> set (ustr ''su'') then Cursor_save
      else if safe_mode then Drop
      else Other)"

text \<open>
  The inner loop of the OSC branch, started at \<open>j = i + 2\<close>. It stops at a BEL
  (the token is \<open>text[i:j+1]\<close>, the scan resumes at \<open>j + 1\<close>) or at ESC backslash
  (\<open>text[i:j+2]\<close>, resuming at \<open>j + 2\<close>); the result is the index where the scan resumes.
  \<open>None\<close> is the loop's \<open>else\<close> clause: the input ended with no terminator.
\<close>

function osc_end :: "ustring \<Rightarrow> nat \<Rightarrow> nat option" where
  "osc_end text j =
     (if j < length text then
        (if text ! j = BEL then Some (j + 1)
         else if slice text j (j + 2) = [ESC, BACKSLASH] then Some (j + 2)
         else osc_end text (j + 1))
      else None)"
  by pat_completeness auto
termination
  by (relation "measure (\<lambda>(text, j). length text - j)") auto

declare osc_end.simps [simp del]

text \<open>
  \<open>text.find(c, i)\<close> for a one-character \<open>c\<close> and \<open>0 \<le> i\<close>: the lowest index
  \<open>k \<ge> i\<close> with \<open>text[k] == c\<close>, or \<open>-1\<close>. The search starts at \<open>i\<close> itself.
\<close>

function str_find :: "ustring \<Rightarrow> nat \<Rightarrow> nat \<Rightarrow> int" where
  "str_find text c i =
     (if i < length text then
        (if text ! i = c then int i else str_find text c (i + 1))
      else - 1)"
  by pat_completeness auto
termination
  by (relation "measure (\<lambda>(text, c, i). length text - i)") auto

declare str_find.simps [simp del]

text \<open>
  One pass through the body of the outer \<open>while i < len(text)\<close> loop of
  \<open>tokenize_ansi\<close>, entered at an index \<open>i < len(text)\<close>. A pass yields at most one
  token and then either goes round again with a new \<open>i\<close> (\<open>Continue\<close>: the source's
  \<open>continue\<close>, or the end of the body) or leaves the loop (\<open>Break\<close>).

  The three branches are those of the source. The CSI branch is taken when the
  character is ESC, another character follows, that one is \<open>[\<close>, and the parameter
  loop stops before the end of the text (\<open>if j < len(text)\<close>); it ends in
  \<open>continue\<close>. The OSC branch (\<open>elif text[i + 1] == "]" and safe_mode\<close>) always ends in
  \<open>continue\<close> or \<open>break\<close>. Every other case falls through to the code under
  \<open># Regular text\<close>, where \<open>text.find("\x1b", i)\<close> starts its search at \<open>i\<close>.
\<close>

datatype step = Continue "token list" nat | Break "token list"

definition tokenize_step :: "ustring \<Rightarrow> bool \<Rightarrow> nat \<Rightarrow> step" where
  "tokenize_step text safe_mode i =
     (if text ! i = ESC \<and> i + 1 < length text \<and> text ! (i + 1) = ord CHR ''[''
         \<and> skip_params text (i + 2) < length text then
        (let j = skip_params text (i + 2);
             final = text ! j;
             seq = slice text i (j + 1)
         in Continue [(classify safe_mode final seq, seq)] (j + 1))
      else if text ! i = ESC \<and> i + 1 < length text \<and> text ! (i + 1) = ord CHR '']''
         \<and> safe_mode then
        (case osc_end text (i + 2) of
           Some i' \<Rightarrow> Continue [(Drop, slice text i i')] i'
         | None \<Rightarrow> Break [(Drop, drop i text)])
      else
        (let next_esc = str_find text ESC i
         in if next_esc = - 1 then Break [(Text, drop i text)]
            else Continue
                   (if next_esc > int i then [(Text, slice text i (nat next_esc))] else [])
                   (nat next_esc)))"

text \<open>
  The loop itself, from index \<open>i\<close>, collecting the generator's tokens in the order
  they are yielded. The source gives the loop no variant, so it is a partial function:
  \<open>None\<close> means that the loop never ends, \<open>Some toks\<close> that the generator is exhausted
  after yielding exactly \<open>toks\<close>.
\<close>

partial_function (option) tokenize_loop :: "ustring \<Rightarrow> bool \<Rightarrow> nat \<Rightarrow> token list option" where
  "tokenize_loop text safe_mode i =
     (if i < length text then
        (case tokenize_step text safe_mode i of
           Break toks \<Rightarrow> Some toks
         | Continue toks i' \<Rightarrow>
             Option.bind (tokenize_loop text safe_mode i') (\<lambda>rest. Some (toks @ rest)))
      else Some [])"

declare tokenize_loop.simps [code]

definition tokenize_ansi :: "ustring \<Rightarrow> bool \<Rightarrow> token list option" where
  "tokenize_ansi text safe_mode = tokenize_loop text safe_mode 0"

section \<open>parser.py: the safety filter\<close>

text \<open>
  The \<open>for\<close> loop of \<open>filter_safe\<close> appends the content of every token that is not
  \<open>"drop"\<close> to \<open>result\<close>; \<open>"".join(result)\<close> concatenates them. The loop consumes the
  whole generator, so \<open>filter_safe\<close> returns only if the tokenizer ends.
\<close>

fun collect_safe :: "token list \<Rightarrow> ustring list \<Rightarrow> ustring list" where
  "collect_safe [] result = result"
| "collect_safe ((token_type, content) # toks) result =
     (if token_type \<noteq> Drop then collect_safe toks (result @ [content])
      else collect_safe toks result)"

definition filter_safe :: "ustring \<Rightarrow> ustring option" where
  "filter_safe text =
     Option.bind (tokenize_ansi text True) (\<lambda>toks. Some (concat (collect_safe toks [])))"

text \<open>
  What \<open>filter_safe\<close> is meant to let through, as a predicate on texts: a text is safe
  when every ESC in it starts a complete CSI sequence that the tokenizer does not drop
  in safe mode, that is ESC, \<open>[\<close>, parameter characters, and a final byte that
  \<open>classify\<close> recognises. A safe text holds no OSC sequence and no unrecognised CSI
  sequence.
\<close>

inductive safe_text :: "ustring \<Rightarrow> bool" where
  safe_Nil: "safe_text []"
| safe_Char: "c \<noteq> ESC \<Longrightarrow> safe_text s \<Longrightarrow> safe_text (c # s)"
| safe_Csi: "set ps \<subseteq> set (ustr ''0123456789;?'') \<Longrightarrow> f \<notin> set (ustr ''0123456789;?'')
    \<Longrightarrow> classify True f (ESC # ord CHR ''['' # ps @ [f]) \<noteq> Drop
    \<Longrightarrow> safe_text s \<Longrightarrow> safe_text (ESC # ord CHR ''['' # ps @ f # s)"

inductive_cases safe_text_ConsE: "safe_text (c # s)"

section \<open>parser.py: the iCE colour transform\<close>


text \<open>\<open>raw.split(";")\<close>: the fields between separators; an empty string gives one empty field.\<close>

fun split_str :: "nat \<Rightarrow> ustring \<Rightarrow> ustring list" where
  "split_str sep [] = [[]]"
| "split_str sep (c # cs) =
     (if c = sep then [] # split_str sep cs
      else (case split_str sep cs of
              p # ps \<Rightarrow> (c # p) # ps
            | [] \<Rightarrow> [[c]]))"

text \<open>
  \<open>int(p)\<close> on a string of ASCII digits, which is all the pattern lets through; on the
  empty string or at any other character the model answers \<open>None\<close>, the \<open>ValueError\<close>
  that \<open>repl\<close> catches. Python integers are unbounded (the interpreter's configurable
  limit on the number of digits of a conversion is not modelled).
\<close>

definition py_int :: "ustring \<Rightarrow> int option" where
  "py_int p =
     (if p \<noteq> [] \<and> (\<forall>c \<in> set p. c \<in> set (ustr ''0123456789''))
      then Some (foldl (\<lambda>acc c. 10 * acc + (int c - int (ord CHR ''0''))) 0 p)
      else None)"

text \<open>\<open>str(n)\<close> for an integer: its decimal digits, with a minus sign when negative.\<close>

fun digits :: "nat \<Rightarrow> ustring" where
  "digits n =
     (if n < 10 then [ord CHR ''0'' + n]
      else digits (n div 10) @ [ord CHR ''0'' + n mod 10])"

declare digits.simps [simp del]

definition py_str :: "int \<Rightarrow> ustring" where
  "py_str n = (if n < 0 then ord CHR ''-'' # digits (nat (- n)) else digits (nat n))"

text \<open>\<open>sep.join(xs)\<close>.\<close>

fun join :: "ustring \<Rightarrow> ustring list \<Rightarrow> ustring" where
  "join sep [] = []"
| "join sep [x] = x"
| "join sep (x # y # ys) = x @ sep @ join sep (y # ys)"

text \<open>\<open>[int(p) for p in raw.split(";") if p]\<close>; \<open>None\<close> when some \<open>int(p)\<close> raises.\<close>

definition parse_params :: "ustring \<Rightarrow> int list option" where
  "parse_params raw =
     those (map py_int (filter (\<lambda>p. p \<noteq> []) (split_str (ord CHR '';'') raw)))"





section \<open>sauce.py: the metadata codec\<close>

text \<open>
  \<open>xs[a:b]\<close> with indices that may be negative: a negative index counts from the end,
  and both are clamped to \<open>0 .. len(xs)\<close>. \<open>xs[:b]\<close> is \<open>xs[0:b]\<close>.
\<close>

definition py_slice :: "'a list \<Rightarrow> int \<Rightarrow> int \<Rightarrow> 'a list" where
  "py_slice xs a b =
     (let n = int (length xs);
          lo = (if a < 0 then max 0 (a + n) else min a n);
          hi = (if b < 0 then max 0 (b + n) else min b n)
      in take (nat (hi - lo)) (drop (nat lo) xs))"

text \<open>
  \<open>data.rfind(sub)\<close>: the highest index at which \<open>sub\<close> occurs in \<open>data\<close>, or \<open>-1\<close>.
  \<open>rfind_from data sub k\<close> tries the start indices \<open>k, k - 1, ..., 0\<close>.
\<close>

fun rfind_from :: "bytes \<Rightarrow> bytes \<Rightarrow> nat \<Rightarrow> int" where
  "rfind_from data sub 0 = (if take (length sub) data = sub then 0 else - 1)"
| "rfind_from data sub (Suc k) =
     (if take (length sub) (drop (Suc k) data) = sub then int (Suc k)
      else rfind_from data sub k)"

definition rfind :: "bytes \<Rightarrow> bytes \<Rightarrow> int" where
  "rfind data sub =
     (if length sub \<le> length data then rfind_from data sub (length data - length sub)
      else - 1)"

definition has_sauce :: "bytes \<Rightarrow> bool" where
  "has_sauce data =
     (if length data < 128 then False
      else py_slice data (- 128) (- 123) = ''SAUCE'')"

definition strip_sauce_tail :: "bytes \<Rightarrow> bytes" where
  "strip_sauce_tail data =
     (if length data \<ge> 128 \<and> py_slice data (- 128) (- 123) = ''SAUCE''
      then py_slice data 0 (- 128)
      else (let last = rfind data ''SAUCE''
            in if last \<noteq> - 1 \<and> int (length data) - last \<le> 512
               then py_slice data 0 last
               else data))"











section \<open>analyze.py: the size heuristics\<close>

text \<open>
  \<open>clean.decode("cp437", errors="replace")\<close>: one character for each byte. The codec
  maps the bytes below 128 to the code points of the same number; the table for the
  upper half belongs to the Python library and is the parameter \<open>hi\<close>. Decoding never
  raises, so the \<open>except\<close> branch of the source is not reached.
\<close>

definition decode_cp437 :: "(char \<Rightarrow> nat) \<Rightarrow> bytes \<Rightarrow> ustring" where
  "decode_cp437 hi b = map (\<lambda>c. if (of_char c :: nat) < 128 then of_char c else hi c) b"

text \<open>
  The \<open>"\x1b"\<close> branch of the scanning loop: the index after the escape sequence at \<open>i\<close>.
\<close>

definition skip_escape :: "ustring \<Rightarrow> nat \<Rightarrow> nat" where
  "skip_escape text i =
     (let j = i + 1
      in if j < length text \<and> text ! j = ord CHR ''[''
         then (let j = skip_params text (j + 1)
               in if j < length text then j + 1 else j)
         else j)"

lemma skip_params_ge: "j \<le> skip_params t j"
proof (induction t j rule: skip_params.induct)
  case (1 t j)
  then show ?case
    by (subst skip_params.simps) auto
qed

lemma skip_escape_gt: "i < skip_escape text i"
proof -
  have "i + 2 \<le> skip_params text (i + 2)"
    by (rule skip_params_ge)
  then show ?thesis
    by (auto simp: skip_escape_def Let_def)
qed

text \<open>
  The \<open>while i < len(text)\<close> loop of \<open>analyze_bytes\<close>, from index \<open>i\<close>, on the state
  \<open>(lines, current_col, max_col)\<close>; it returns the state at the end of the text. At a
  newline the source appends \<open>max_col\<close> to \<open>lines\<close> first and updates \<open>max_col\<close> after.
\<close>

function scan_columns ::
  "ustring \<Rightarrow> nat \<Rightarrow> int list \<Rightarrow> int \<Rightarrow> int \<Rightarrow> int list \<times> int \<times> int" where
  "scan_columns text i lines current_col max_col =
     (if i < length text then
        (if text ! i = ord CHR 0x0A then
           scan_columns text (i + 1) (lines @ [max_col]) 0 (max max_col current_col)
         else if text ! i = ord CHR 0x0D then
           scan_columns text (i + 1) lines 0 max_col
         else if text ! i = ESC then
           scan_columns text (skip_escape text i) lines current_col max_col
         else
           scan_columns text (i + 1) lines (current_col + 1) max_col)
      else (lines, current_col, max_col))"
  by pat_completeness auto
termination
proof (relation "measure (\<lambda>(text, i, lines, current_col, max_col). length text - i)")
  fix t :: ustring and i :: nat and ls :: "int list" and cur mx :: int
  assume "i < length t"
  moreover have "i < skip_escape t i"
    by (rule skip_escape_gt)
  ultimately show "((t, skip_escape t i, ls, cur, mx), (t, i, ls, cur, mx))
    \<in> measure (\<lambda>(text, i, lines, current_col, max_col). length text - i)"
    by simp
qed auto

declare scan_columns.simps [simp del]

text \<open>\<open>max(lines)\<close> for a list that is not empty.\<close>

definition py_max :: "int list \<Rightarrow> int" where
  "py_max xs = foldl max (hd xs) (tl xs)"

text \<open>
  The result of \<open>analyze_bytes\<close>. The fields \<open>uses_ice\<close> and \<open>has_cup\<close> of the source are
  two regular-expression searches over the text that no other field depends on; they
  are left out of the model. \<open>sauce_present\<close> is the source's field \<open>has_sauce\<close>.
\<close>

record analysis =
  sauce_present :: bool
  est_cols :: int
  est_rows :: int
  suggested_width :: int
  suggested_height :: int

definition analyze_bytes :: "(char \<Rightarrow> nat) \<Rightarrow> bytes \<Rightarrow> analysis" where
  "analyze_bytes hi data =
     (let sauce_present = has_sauce data;
          clean = strip_sauce_tail data;
          text = decode_cp437 hi clean;
          (lines, current_col, max_col) = scan_columns text 0 [] 0 0;
          lines = lines @ [max_col];
          est_rows = int (length lines);
          est_cols = (if lines \<noteq> [] then py_max lines else 0);
          suggested_width = (if est_cols > 100 then 132 else 80);
          suggested_height =
            (if est_rows > 25 \<and> est_rows \<le> 50 then 50
             else if est_rows > 50 then max 25 est_rows
             else 25)
      in \<lparr>sauce_present = sauce_present, est_cols = est_cols, est_rows = est_rows,
          suggested_width = suggested_width, suggested_height = suggested_height\<rparr>)"

section \<open>One pass of the tokenizer\<close>

lemmas literal_defs = ustr_def ord_def ESC_def BEL_def BACKSLASH_def

text \<open>
  The helper loops stay inside the text: \<open>osc_end\<close> resumes after its start and not
  beyond the end, \<open>text.find\<close> returns the first index of the character from \<open>i\<close> on,
  and \<open>skip_params\<close> passes over parameter characters only and stops at the first
  character that is not one.
\<close>

lemma str_find_hit: "i < length t \<Longrightarrow> t ! i = c \<Longrightarrow> str_find t c i = int i"
  by (subst str_find.simps) simp

lemma osc_end_bounds: "osc_end t j = Some k \<Longrightarrow> j < k \<and> k \<le> length t"
proof (induction t j rule: osc_end.induct)
  case (1 t j)
  show ?case
  proof (cases "j < length t")
    case False
    with 1(2) show ?thesis
      by (subst (asm) osc_end.simps) simp
  next
    case True
    show ?thesis
    proof (cases "t ! j = BEL")
      case bel: True
      with True 1(2) show ?thesis
        by (subst (asm) osc_end.simps) auto
    next
      case bel: False
      show ?thesis
      proof (cases "slice t j (j + 2) = [ESC, BACKSLASH]")
        case st: True
        then have "length (slice t j (j + 2)) = 2"
          by simp
        then have "j + 2 \<le> length t"
          by (simp add: slice_def)
        with True bel st 1(2) show ?thesis
          by (subst (asm) osc_end.simps) auto
      next
        case st: False
        with True bel 1(2) have "osc_end t (j + 1) = Some k"
          by (subst (asm) osc_end.simps) simp
        with 1(1)[OF True bel st] show ?thesis
          by simp
      qed
    qed
  qed
qed

lemma str_find_bounds: "str_find t c i = r \<Longrightarrow> r \<noteq> - 1 \<Longrightarrow> int i \<le> r \<and> r < int (length t)"
proof (induction t c i rule: str_find.induct)
  case (1 t c i)
  show ?case
  proof (cases "i < length t \<and> t ! i \<noteq> c")
    case True
    with 1(2) have "str_find t c (i + 1) = r"
      by (subst (asm) str_find.simps) simp
    with 1(1)[OF _ _ _ 1(3)] True show ?thesis
      by simp
  next
    case False
    with 1(2,3) show ?thesis
      by (subst (asm) str_find.simps) (auto split: if_splits)
  qed
qed

lemma str_find_first:
  "str_find t c i = r \<Longrightarrow> i \<le> m \<Longrightarrow> m < length t \<Longrightarrow> r = - 1 \<or> int m < r \<Longrightarrow> t ! m \<noteq> c"
proof (induction t c i rule: str_find.induct)
  case (1 t c i)
  show ?case
  proof (cases "i < length t \<and> t ! i \<noteq> c")
    case True
    then have s: "str_find t c i = str_find t c (i + 1)"
      by (subst str_find.simps) simp
    show ?thesis
    proof (cases "m = i")
      case True
      with \<open>i < length t \<and> t ! i \<noteq> c\<close> show ?thesis by simp
    next
      case False
      with 1(3) have "i + 1 \<le> m" by simp
      with 1(1)[OF _ _ _ this 1(4) 1(5)] True s 1(2) show ?thesis by simp
    qed
  next
    case False
    with 1(3,4) have "str_find t c i = int i"
      by (subst str_find.simps) auto
    with 1(2,3,5) show ?thesis by auto
  qed
qed

lemma str_find_at: "str_find t c i = r \<Longrightarrow> r \<noteq> - 1 \<Longrightarrow> t ! nat r = c"
proof (induction t c i rule: str_find.induct)
  case (1 t c i)
  show ?case
  proof (cases "i < length t \<and> t ! i \<noteq> c")
    case True
    with 1(2) have "str_find t c (i + 1) = r"
      by (subst (asm) str_find.simps) simp
    with 1(1)[OF _ _ _ 1(3)] True show ?thesis
      by simp
  next
    case False
    with 1(2,3) show ?thesis
      by (subst (asm) str_find.simps) (auto split: if_splits)
  qed
qed

lemma skip_params_scan:
  "j \<le> k \<Longrightarrow> k < skip_params t j \<Longrightarrow> t ! k \<in> set (ustr ''0123456789;?'')"
proof (induction t j rule: skip_params.induct)
  case (1 t j)
  show ?case
  proof (cases "j < length t \<and> t ! j \<in> set (ustr ''0123456789;?'')")
    case True
    then have s: "skip_params t j = skip_params t (j + 1)"
      by (subst skip_params.simps) simp
    show ?thesis
    proof (cases "k = j")
      case True
      with \<open>j < length t \<and> t ! j \<in> set (ustr ''0123456789;?'')\<close> show ?thesis by simp
    next
      case False
      with 1(2) have "j + 1 \<le> k" by simp
      with 1(1)[OF True this] 1(3) s show ?thesis by simp
    qed
  next
    case False
    then have "skip_params t j = j"
      by (subst skip_params.simps) auto
    with 1(2,3) show ?thesis by simp
  qed
qed

lemma skip_params_stop:
  "skip_params t j < length t \<Longrightarrow> t ! skip_params t j \<notin> set (ustr ''0123456789;?'')"
proof (induction t j rule: skip_params.induct)
  case (1 t j)
  show ?case
  proof (cases "j < length t \<and> t ! j \<in> set (ustr ''0123456789;?'')")
    case True
    then have s: "skip_params t j = skip_params t (j + 1)"
      by (subst skip_params.simps) simp
    with 1(1)[OF True] 1(2) show ?thesis by simp
  next
    case False
    then have s: "skip_params t j = j"
      by (subst skip_params.simps) auto
    with 1(2) False show ?thesis by simp
  qed
qed

text \<open>
  The six ways a pass can go: a complete CSI sequence, an OSC sequence with or without
  terminator (in safe mode), text up to the end, text up to the next ESC, and the pass
  that finds its own ESC again and changes nothing.
\<close>

lemma tokenize_step_cases:
  assumes "i < length t"
  obtains
    (csi) j where "t ! i = ESC" and "t ! (i + 1) = ord CHR ''[''"
      and "j = skip_params t (i + 2)" and "i + 2 \<le> j" and "j < length t"
      and "tokenize_step t safe_mode i
            = Continue [(classify safe_mode (t ! j) (slice t i (j + 1)), slice t i (j + 1))] (j + 1)"
  | (osc_closed) k where "t ! i = ESC" and "safe_mode"
      and "osc_end t (i + 2) = Some k" and "i + 2 < k" and "k \<le> length t"
      and "tokenize_step t safe_mode i = Continue [(Drop, slice t i k)] k"
  | (osc_open) "t ! i = ESC" and "safe_mode"
      and "tokenize_step t safe_mode i = Break [(Drop, drop i t)]"
  | (text_end) "str_find t ESC i = - 1"
      and "tokenize_step t safe_mode i = Break [(Text, drop i t)]"
  | (text_run) k where "str_find t ESC i = int k" and "i < k" and "k < length t"
      and "tokenize_step t safe_mode i = Continue [(Text, slice t i k)] k"
  | (stuck) "t ! i = ESC" and "tokenize_step t safe_mode i = Continue [] i"
proof (cases "t ! i = ESC \<and> i + 1 < length t \<and> t ! (i + 1) = ord CHR ''[''
    \<and> skip_params t (i + 2) < length t")
  case True
  have "tokenize_step t safe_mode i =
    (let j = skip_params t (i + 2); final = t ! j; seq = slice t i (j + 1)
     in Continue [(classify safe_mode final seq, seq)] (j + 1))"
    by (simp only: tokenize_step_def if_P[OF True])
  then have "tokenize_step t safe_mode i
    = Continue [(classify safe_mode (t ! skip_params t (i + 2))
                   (slice t i (skip_params t (i + 2) + 1)),
                 slice t i (skip_params t (i + 2) + 1))] (skip_params t (i + 2) + 1)"
    by (simp only: Let_def)
  moreover have "i + 2 \<le> skip_params t (i + 2)"
    by (rule skip_params_ge)
  ultimately show ?thesis
    using True csi[of "skip_params t (i + 2)"] by blast
next
  case no_csi: False
  show ?thesis
  proof (cases "t ! i = ESC \<and> i + 1 < length t \<and> t ! (i + 1) = ord CHR '']'' \<and> safe_mode")
    case True
    have eq: "tokenize_step t safe_mode i =
      (case osc_end t (i + 2) of
         Some i' \<Rightarrow> Continue [(Drop, slice t i i')] i'
       | None \<Rightarrow> Break [(Drop, drop i t)])"
      by (simp only: tokenize_step_def if_not_P[OF no_csi] if_P[OF True])
    show ?thesis
    proof (cases "osc_end t (i + 2)")
      case None
      from eq[unfolded None option.case] True show ?thesis
        using osc_open by blast
    next
      case (Some k)
      from osc_end_bounds[OF Some] eq[unfolded Some option.case] True Some show ?thesis
        using osc_closed[of k] by blast
    qed
  next
    case no_osc: False
    have "tokenize_step t safe_mode i =
      (let next_esc = str_find t ESC i
       in if next_esc = - 1 then Break [(Text, drop i t)]
          else Continue
                 (if next_esc > int i then [(Text, slice t i (nat next_esc))] else [])
                 (nat next_esc))"
      by (simp only: tokenize_step_def if_not_P[OF no_csi] if_not_P[OF no_osc])
    then have eq: "tokenize_step t safe_mode i =
       (if str_find t ESC i = - 1 then Break [(Text, drop i t)]
        else Continue
               (if str_find t ESC i > int i
                then [(Text, slice t i (nat (str_find t ESC i)))] else [])
               (nat (str_find t ESC i)))"
      by (simp only: Let_def)
    show ?thesis
    proof (cases "str_find t ESC i = - 1")
      case True
      from eq[unfolded if_P[OF True]] True show ?thesis
        using text_end by blast
    next
      case False
      from str_find_bounds[OF refl False]
      have b: "int i \<le> str_find t ESC i" "str_find t ESC i < int (length t)"
        by auto
      define k where "k = nat (str_find t ESC i)"
      with b have k: "str_find t ESC i = int k" "i \<le> k" "k < length t"
        by simp_all
      show ?thesis
      proof (cases "i < k")
        case True
        with k have "tokenize_step t safe_mode i = Continue [(Text, slice t i k)] k"
          by (simp add: eq)
        with k True show ?thesis
          using text_run[of k] by blast
      next
        case stay: False
        with k have ki: "k = i"
          by simp
        with k have "tokenize_step t safe_mode i = Continue [] i"
          by (simp add: eq)
        moreover have "t ! i = ESC"
        proof (rule ccontr)
          assume "t ! i \<noteq> ESC"
          with assms have "str_find t ESC i = str_find t ESC (i + 1)"
            by (subst str_find.simps) simp
          with k ki have "str_find t ESC (i + 1) = int i"
            by simp
          moreover have "str_find t ESC (i + 1) \<noteq> - 1"
            using calculation by simp
          ultimately show False
            using str_find_bounds[of t ESC "i + 1" "int i"] by simp
        qed
        ultimately show ?thesis
          using stuck by blast
      qed
    qed
  qed
qed

lemma tokenize_loop_unfold_Continue:
  assumes "i < length t" and "tokenize_step t safe_mode i = Continue toks i'"
    and "tokenize_loop t safe_mode i' = Some rest"
  shows "tokenize_loop t safe_mode i = Some (toks @ rest)"
  using assms by (subst tokenize_loop.simps) simp

lemma tokenize_loop_unfold_Break:
  assumes "i < length t" and "tokenize_step t safe_mode i = Break toks"
  shows "tokenize_loop t safe_mode i = Some toks"
  using assms by (subst tokenize_loop.simps) simp

section \<open>The tokenizer: where the loop never ends\<close>

text \<open>
  An ESC that starts neither a complete CSI sequence nor (in safe mode) an OSC sequence
  reaches the code under \<open># Regular text\<close>. There \<open>text.find("\x1b", i)\<close> finds the ESC
  at \<open>i\<close> itself, nothing is yielded, and \<open>i\<close> keeps its value.
\<close>

lemma tokenize_step_stuck:
  assumes "i < length t" and "t ! i = ESC"
    and "\<not> (i + 1 < length t \<and> t ! (i + 1) = ord CHR ''[''
            \<and> skip_params t (i + 2) < length t)"
    and "\<not> (i + 1 < length t \<and> t ! (i + 1) = ord CHR '']'' \<and> safe_mode)"
  shows "tokenize_step t safe_mode i = Continue [] i"
  using assms by (auto simp: tokenize_step_def str_find_hit Let_def)

text \<open>
  A pass that yields nothing and leaves \<open>i\<close> where it was repeats for ever.
\<close>

lemma tokenize_loop_fixed_point:
  assumes "i < length t" and "tokenize_step t safe_mode i = Continue [] i"
  shows "tokenize_loop t safe_mode i = None"
proof (rule ccontr)
  assume "tokenize_loop t safe_mode i \<noteq> None"
  then obtain toks where r: "tokenize_loop t safe_mode i = Some toks"
    by auto
  have "\<not> (t = t \<and> safe_mode = safe_mode \<and> i = i)"
  proof (rule tokenize_loop.raw_induct
      [where P = "\<lambda>t' s' k y. \<not> (t' = t \<and> s' = safe_mode \<and> k = i)", OF _ r])
    fix f t' s' k y
    assume IH: "\<And>t' s' k y. f t' s' k = Some y \<Longrightarrow> \<not> (t' = t \<and> s' = safe_mode \<and> k = i)"
      and body: "(if k < length t' then
          (case tokenize_step t' s' k of
             Break toks \<Rightarrow> Some toks
           | Continue toks i' \<Rightarrow> Option.bind (f t' s' i') (\<lambda>rest. Some (toks @ rest)))
        else Some []) = Some y"
    show "\<not> (t' = t \<and> s' = safe_mode \<and> k = i)"
    proof
      assume "t' = t \<and> s' = safe_mode \<and> k = i"
      with body assms have "f t safe_mode i = Some y"
        by (auto split: Option.bind_splits)
      from IH[OF this] show False
        by simp
    qed
  qed
  then show False
    by simp
qed

lemma tokenize_loop_stuck:
  assumes "i < length t" and "t ! i = ESC"
    and "\<not> (i + 1 < length t \<and> t ! (i + 1) = ord CHR ''[''
            \<and> skip_params t (i + 2) < length t)"
    and "\<not> (i + 1 < length t \<and> t ! (i + 1) = ord CHR '']'' \<and> safe_mode)"
  shows "tokenize_loop t safe_mode i = None"
  using assms by (intro tokenize_loop_fixed_point tokenize_step_stuck)

text \<open>
  A loop that hangs at a later index hangs from every index that leads there.
\<close>

lemma tokenize_loop_hangs_later:
  assumes "i < length t" and "tokenize_step t safe_mode i = Continue toks i'"
    and "tokenize_loop t safe_mode i' = None"
  shows "tokenize_loop t safe_mode i = None"
  using assms by (subst tokenize_loop.simps) simp

text \<open>
  The same happens after any text without ESC: the first pass yields that text and
  the next one is stuck. This gives three families of inputs on which the tokenizer
  never ends: an ESC followed by a character other than \<open>[\<close> (and other than \<open>]\<close>, or
  with the flag off); an ESC at the very end; and ESC \<open>[\<close> followed by parameter
  characters up to the end of the text.
\<close>

lemma str_find_after_plain_text:
  assumes "c \<notin> set pre"
  shows "str_find (pre @ c # rest) c 0 = int (length pre)"
proof -
  let ?t = "pre @ c # rest"
  let ?r = "str_find ?t c 0"
  have hit: "length pre < length ?t" "?t ! length pre = c"
    by simp_all
  have "\<not> (?r = - 1 \<or> int (length pre) < ?r)"
    using str_find_first[OF refl, of 0 "length pre" ?t c] hit by blast
  then have ne: "?r \<noteq> - 1" and le: "?r \<le> int (length pre)"
    by simp_all
  from str_find_bounds[OF refl ne] have "0 \<le> ?r"
    by simp
  moreover have "\<not> nat ?r < length pre"
  proof
    assume "nat ?r < length pre"
    then have "?t ! nat ?r \<in> set pre"
      by (simp add: nth_append)
    with str_find_at[OF refl ne] assms show False
      by simp
  qed
  ultimately show ?thesis
    using le by linarith
qed

lemma tokenize_ansi_hangs_after_plain_text:
  assumes "ESC \<notin> set pre"
    and "tokenize_loop (pre @ ESC # rest) safe_mode (length pre) = None"
  shows "tokenize_ansi (pre @ ESC # rest) safe_mode = None"
proof (cases "pre = []")
  case True
  with assms(2) show ?thesis
    by (simp add: tokenize_ansi_def)
next
  case False
  let ?t = "pre @ ESC # rest"
  from False obtain x xs where pre: "pre = x # xs"
    by (cases pre) auto
  with assms(1) have 0: "0 < length ?t" and ne: "?t ! 0 \<noteq> ESC"
    by auto
  have f: "str_find ?t ESC 0 = int (length pre)"
    using assms(1) by (rule str_find_after_plain_text)
  from 0 have "tokenize_step ?t safe_mode 0 = Continue [(Text, slice ?t 0 (length pre))] (length pre)"
  proof (cases rule: tokenize_step_cases[where safe_mode = safe_mode])
    case (csi j)
    with ne show ?thesis by simp
  next
    case (osc_closed k)
    with ne show ?thesis by simp
  next
    case osc_open
    with ne show ?thesis by simp
  next
    case text_end
    with f show ?thesis by simp
  next
    case (text_run k)
    with f show ?thesis by simp
  next
    case stuck
    with ne show ?thesis by simp
  qed
  from tokenize_loop_hangs_later[OF 0 this assms(2)] show ?thesis
    by (simp add: tokenize_ansi_def)
qed

lemma tokenize_ansi_hangs_on_other_escape:
  assumes "ESC \<notin> set pre" and "c \<noteq> ord CHR ''[''" and "c \<noteq> ord CHR '']'' \<or> \<not> safe_mode"
  shows "tokenize_ansi (pre @ ESC # c # rest) safe_mode = None"
  using assms(1)
proof (rule tokenize_ansi_hangs_after_plain_text)
  show "tokenize_loop (pre @ ESC # c # rest) safe_mode (length pre) = None"
    using assms(2,3) by (intro tokenize_loop_stuck) (auto simp: nth_append)
qed

lemma tokenize_ansi_hangs_on_escape_at_end:
  assumes "ESC \<notin> set pre"
  shows "tokenize_ansi (pre @ [ESC]) safe_mode = None"
  using assms
proof (rule tokenize_ansi_hangs_after_plain_text)
  show "tokenize_loop (pre @ [ESC]) safe_mode (length pre) = None"
    by (intro tokenize_loop_stuck) (auto simp: nth_append)
qed

lemma skip_params_to_end:
  assumes "set ps \<subseteq> set (ustr ''0123456789;?'')"
  shows "skip_params (pre @ ps) (length pre) = length (pre @ ps)"
  using assms
proof (induction ps arbitrary: pre)
  case Nil
  show ?case
    by (subst skip_params.simps) simp
next
  case (Cons p ps)
  then have "skip_params (pre @ p # ps) (length pre) = skip_params (pre @ p # ps) (length pre + 1)"
    by (subst skip_params.simps) (simp add: nth_append)
  also have "\<dots> = skip_params ((pre @ [p]) @ ps) (length (pre @ [p]))"
    by simp
  also have "\<dots> = length ((pre @ [p]) @ ps)"
    using Cons.prems by (intro Cons.IH) simp
  finally show ?case
    by simp
qed

lemma tokenize_ansi_hangs_on_every_truncated_csi:
  assumes "ESC \<notin> set pre" and "set ps \<subseteq> set (ustr ''0123456789;?'')"
  shows "tokenize_ansi (pre @ ESC # ord CHR ''['' # ps) safe_mode = None"
  using assms(1)
proof (rule tokenize_ansi_hangs_after_plain_text)
  let ?t = "pre @ ESC # ord CHR ''['' # ps"
  have "skip_params ((pre @ [ESC, ord CHR ''['']) @ ps) (length (pre @ [ESC, ord CHR ''['']))
    = length ((pre @ [ESC, ord CHR ''['']) @ ps)"
    using assms(2) by (rule skip_params_to_end)
  then have "skip_params ?t (length pre + 2) = length ?t"
    by simp
  moreover have "ord CHR ''['' \<noteq> ord CHR '']''"
    by (simp add: ord_def)
  ultimately show "tokenize_loop ?t safe_mode (length pre) = None"
    by (intro tokenize_loop_stuck) (auto simp: nth_append)
qed

text \<open>
  Claim C1 says that \<open>tokenize(text, safe_mode)\<close> ends on every input, in particular
  when the escape marker is followed by a character other than \<open>[\<close> or \<open>]\<close>. The code
  does not: on the two-character text ESC \<open>X\<close> the loop never ends and no token is
  yielded, with the safe-mode flag on and with it off.
\<close>

theorem tokenize_ansi_hangs_on_unrecognised_escape:
  "tokenize_ansi (ESC # ustr ''X'') True = None
   \<and> tokenize_ansi (ESC # ustr ''X'') False = None"
proof
  show "tokenize_ansi (ESC # ustr ''X'') True = None"
    unfolding tokenize_ansi_def
    by (rule tokenize_loop_stuck) (simp_all add: literal_defs)
  show "tokenize_ansi (ESC # ustr ''X'') False = None"
    unfolding tokenize_ansi_def
    by (rule tokenize_loop_stuck) (simp_all add: literal_defs)
qed

text \<open>
  Claim C2 says that the contents of the tokens of \<open>tokenize(t, safe_mode)\<close>, put
  together, are \<open>t\<close>, in particular with \<open>safe_mode = false\<close>. With the flag off the
  code never finishes an OSC sequence: on ESC \<open>]0;Title\<close> BEL the loop never ends and
  yields no token, so there is no token sequence to put together.
\<close>

theorem tokenize_ansi_hangs_on_osc_when_unsafe:
  "tokenize_ansi (ESC # ustr '']0;Title'' @ [BEL]) False = None"
  unfolding tokenize_ansi_def
  by (rule tokenize_loop_stuck) (simp_all add: literal_defs)

text \<open>
  Claim C3 says that an input ending in ESC \<open>[\<close> and parameter characters with no final
  byte gives the remainder as one trailing token. The code does not yield that token:
  on ESC \<open>[12\<close> the loop never ends, and on \<open>ab\<close> ESC \<open>[1;3\<close> it yields the text \<open>ab\<close> and
  then never ends.
\<close>

theorem tokenize_ansi_hangs_on_truncated_csi:
  "tokenize_ansi (ESC # ustr ''[12'') True = None
   \<and> tokenize_ansi (ustr ''ab'' @ ESC # ustr ''[1;3'') True = None"
proof
  show "tokenize_ansi (ESC # ustr ''[12'') True = None"
    unfolding tokenize_ansi_def
    by (rule tokenize_loop_stuck) (simp_all add: literal_defs skip_params.simps)
  show "tokenize_ansi (ustr ''ab'' @ ESC # ustr ''[1;3'') True = None"
    unfolding tokenize_ansi_def
  proof (rule tokenize_loop_hangs_later)
    let ?t = "ustr ''ab'' @ ESC # ustr ''[1;3''"
    show "0 < length ?t"
      by (simp add: literal_defs)
    show "tokenize_step ?t True 0 = Continue [(Text, ustr ''ab'')] 2"
      by (simp add: tokenize_step_def literal_defs str_find.simps slice_def)
    show "tokenize_loop ?t True 2 = None"
      by (rule tokenize_loop_stuck) (simp_all add: literal_defs skip_params.simps)
  qed
qed

text \<open>
  The stuck pass is the only way not to end: every other pass that goes round again
  moves \<open>i\<close> forward. So the tokenizer ends on every text on which no pass from \<open>i\<close> on
  is stuck, for instance on every text without ESC.
\<close>

lemma tokenize_loop_ends_unless_stuck:
  "(\<forall>k<length t. i \<le> k \<longrightarrow> tokenize_step t safe_mode k \<noteq> Continue [] k)
    \<Longrightarrow> \<exists>toks. tokenize_loop t safe_mode i = Some toks"
proof (induction "length t - i" arbitrary: i rule: less_induct)
  case less
  show ?case
  proof (cases "i < length t")
    case False
    then have "tokenize_loop t safe_mode i = Some []"
      by (subst tokenize_loop.simps) simp
    then show ?thesis
      by simp
  next
    case True
    have later: "\<exists>toks. tokenize_loop t safe_mode i' = Some toks" if "i < i'" for i'
    proof (rule less.hyps)
      show "length t - i' < length t - i"
        using that True by simp
      show "\<forall>k<length t. i' \<le> k \<longrightarrow> tokenize_step t safe_mode k \<noteq> Continue [] k"
        using less.prems that by simp
    qed
    from True show ?thesis
    proof (cases rule: tokenize_step_cases[where safe_mode = safe_mode])
      case (csi j)
      from later[of "j + 1"] csi(4) obtain rest where "tokenize_loop t safe_mode (j + 1) = Some rest"
        by auto
      from tokenize_loop_unfold_Continue[OF True csi(6) this] show ?thesis
        by simp
    next
      case (osc_closed k)
      from later[of k] osc_closed(4) obtain rest where "tokenize_loop t safe_mode k = Some rest"
        by auto
      from tokenize_loop_unfold_Continue[OF True osc_closed(6) this] show ?thesis
        by simp
    next
      case osc_open
      from tokenize_loop_unfold_Break[OF True osc_open(3)] show ?thesis
        by simp
    next
      case text_end
      from tokenize_loop_unfold_Break[OF True text_end(2)] show ?thesis
        by simp
    next
      case (text_run k)
      from later[of k] text_run(2) obtain rest where "tokenize_loop t safe_mode k = Some rest"
        by auto
      from tokenize_loop_unfold_Continue[OF True text_run(4) this] show ?thesis
        by simp
    next
      case stuck
      with less.prems True show ?thesis
        by simp
    qed
  qed
qed

lemma tokenize_ansi_ends_without_esc:
  assumes "ESC \<notin> set t"
  shows "\<exists>toks. tokenize_ansi t safe_mode = Some toks"
  unfolding tokenize_ansi_def
proof (rule tokenize_loop_ends_unless_stuck, intro allI impI)
  fix k
  assume k: "k < length t"
  with assms have ne: "t ! k \<noteq> ESC"
    by (metis nth_mem)
  from k show "tokenize_step t safe_mode k \<noteq> Continue [] k"
  proof (cases rule: tokenize_step_cases[where safe_mode = safe_mode])
    case (csi j)
    with ne show ?thesis by simp
  next
    case (osc_closed j)
    with ne show ?thesis by simp
  next
    case osc_open
    with ne show ?thesis by simp
  next
    case text_end
    then show ?thesis by simp
  next
    case (text_run j)
    then show ?thesis by simp
  next
    case stuck
    with ne show ?thesis by simp
  qed
qed

section \<open>The tokenizer: what it yields when it ends\<close>

text \<open>
  A pass that goes round again has yielded exactly the text it moved over, and a pass
  that leaves the loop has yielded the rest of the text.
\<close>

lemma tokenize_step_Continue:
  assumes "i < length t" and "tokenize_step t safe_mode i = Continue toks i'"
  shows "i \<le> i' \<and> i' \<le> length t \<and> concat (map snd toks) = slice t i i'"
  using assms(1)
proof (cases rule: tokenize_step_cases[where safe_mode = safe_mode])
  case (csi j)
  note trans[OF sym[OF assms(2)] csi(6), unfolded step.inject]
  then have "toks = [(classify safe_mode (t ! j) (slice t i (j + 1)), slice t i (j + 1))]"
    and "i' = j + 1"
    by blast+
  with csi show ?thesis
    by simp
next
  case (osc_closed k)
  note trans[OF sym[OF assms(2)] osc_closed(6), unfolded step.inject]
  then have "toks = [(Drop, slice t i k)]" and "i' = k"
    by blast+
  with osc_closed show ?thesis
    by simp
next
  case osc_open
  with assms(2) show ?thesis
    by simp
next
  case text_end
  with assms(2) show ?thesis
    by simp
next
  case (text_run k)
  note trans[OF sym[OF assms(2)] text_run(4), unfolded step.inject]
  then have "toks = [(Text, slice t i k)]" and "i' = k"
    by blast+
  with text_run show ?thesis
    by simp
next
  case stuck
  note trans[OF sym[OF assms(2)] stuck(2), unfolded step.inject]
  then have "toks = []" and "i' = i"
    by blast+
  with assms(1) show ?thesis
    by (simp add: slice_def)
qed

lemma tokenize_step_Break:
  assumes "i < length t" and "tokenize_step t safe_mode i = Break toks"
  shows "concat (map snd toks) = drop i t"
  using assms(1)
proof (cases rule: tokenize_step_cases[where safe_mode = safe_mode])
  case (csi j)
  with assms(2) show ?thesis by simp
next
  case (osc_closed k)
  with assms(2) show ?thesis by simp
next
  case osc_open
  with assms(2) show ?thesis by auto
next
  case text_end
  with assms(2) show ?thesis by auto
next
  case (text_run k)
  with assms(2) show ?thesis by simp
next
  case stuck
  with assms(2) show ?thesis by simp
qed

text \<open>
  Whenever the generator is exhausted, the contents of its tokens, in order, are the
  input: nothing is lost and nothing is added, with the flag on or off.
\<close>

lemma tokenize_loop_reassembles:
  assumes "tokenize_loop t safe_mode i = Some toks"
  shows "concat (map snd toks) = drop i t"
proof (rule tokenize_loop.raw_induct
    [where P = "\<lambda>t s i toks. concat (map snd toks) = drop i t", OF _ assms])
  fix f t s i toks
  assume IH: "\<And>t s i toks. f t s i = Some toks \<Longrightarrow> concat (map snd toks) = drop i t"
    and body: "(if i < length t then
        (case tokenize_step t s i of
           Break toks \<Rightarrow> Some toks
         | Continue toks i' \<Rightarrow> Option.bind (f t s i') (\<lambda>rest. Some (toks @ rest)))
      else Some []) = Some toks"
  show "concat (map snd toks) = drop i t"
  proof (cases "i < length t")
    case False
    with body show ?thesis by simp
  next
    case True
    show ?thesis
    proof (cases "tokenize_step t s i")
      case (Break b)
      with True body tokenize_step_Break[OF True Break] show ?thesis by simp
    next
      case (Continue c i')
      with True body obtain rest where r: "f t s i' = Some rest" and toks: "toks = c @ rest"
        by (auto split: Option.bind_splits)
      from tokenize_step_Continue[OF True Continue]
      have "i \<le> i'" "concat (map snd c) = take (i' - i) (drop i t)"
        by (simp_all add: slice_def)
      moreover have "drop i' t = drop (i' - i) (drop i t)"
        using \<open>i \<le> i'\<close> by simp
      ultimately show ?thesis
        using IH[OF r] toks by (simp del: drop_drop)
    qed
  qed
qed

lemma tokenize_ansi_reassembles:
  "tokenize_ansi t safe_mode = Some toks \<Longrightarrow> concat (map snd toks) = t"
  unfolding tokenize_ansi_def using tokenize_loop_reassembles[of t safe_mode 0 toks] by simp

text \<open>
  The examples of the docstring and of the test suite.
\<close>

lemma tokenize_ansi_docstring_example:
  "tokenize_ansi (ustr ''Hello '' @ ESC # ustr ''[31mWorld'' @ ESC # ustr ''[0m'') True
    = Some [(Text, ustr ''Hello ''), (Sgr, ESC # ustr ''[31m''),
            (Text, ustr ''World''), (Sgr, ESC # ustr ''[0m'')]"
  by code_simp

lemma tokenize_ansi_cursor_example:
  "tokenize_ansi (ESC # ustr ''[10;20HText'') True
    = Some [(Cup, ESC # ustr ''[10;20H''), (Text, ustr ''Text'')]"
  by code_simp

lemma tokenize_ansi_osc_example:
  "tokenize_ansi (ESC # ustr '']0;Title'' @ [BEL]) True
    = Some [(Drop, ESC # ustr '']0;Title'' @ [BEL])]"
  by code_simp

section \<open>The safety filter\<close>

lemma collect_safe_eq:
  "collect_safe toks result = result @ map snd (filter (\<lambda>tok. fst tok \<noteq> Drop) toks)"
  by (induction toks result rule: collect_safe.induct) auto

lemma filter_safe_eq:
  "tokenize_ansi t True = Some toks \<Longrightarrow>
     filter_safe t = Some (concat (map snd (filter (\<lambda>tok. fst tok \<noteq> Drop) toks)))"
  by (simp add: filter_safe_def collect_safe_eq)

lemma filter_safe_example:
  "filter_safe (ESC # ustr ''[31mRed'' @ ESC # ustr '']0;Title'' @ [BEL])
    = Some (ESC # ustr ''[31mRed'')"
  by code_simp

text \<open>
  Claim C8 says that \<open>filter_safe\<close> returns, for every text, the contents of the tokens
  that are not dropped. \<open>filter_safe\<close> consumes the whole generator, so where the
  tokenizer never ends it never returns: ESC \<open>X\<close> is such a text. Where the tokenizer
  ends, \<open>filter_safe\<close> returns what the claim says (\<open>filter_safe_eq\<close>), and the
  concrete case of the claim holds (\<open>filter_safe_example\<close>).
\<close>

theorem filter_safe_hangs_on_unrecognised_escape:
  "filter_safe (ESC # ustr ''X'') = None"
  unfolding filter_safe_def tokenize_ansi_def
  by (subst tokenize_loop_stuck) (simp_all add: literal_defs)

text \<open>
  Claim C9 says that \<open>filter_safe(filter_safe(t)) == filter_safe(t)\<close> for every text.
  On a text that ends in a lone ESC, \<open>filter_safe(t)\<close> never returns, so neither side of
  the equation has a value.
\<close>

theorem filter_safe_hangs_on_final_escape:
  "filter_safe (ustr ''Red'' @ [ESC]) = None"
  unfolding filter_safe_def tokenize_ansi_def
proof -
  let ?t = "ustr ''Red'' @ [ESC]"
  have "tokenize_loop ?t True 0 = None"
  proof (rule tokenize_loop_hangs_later)
    show "0 < length ?t"
      by (simp add: literal_defs)
    show "tokenize_step ?t True 0 = Continue [(Text, ustr ''Red'')] 3"
      by (simp add: tokenize_step_def literal_defs str_find.simps slice_def)
    show "tokenize_loop ?t True 3 = None"
      by (rule tokenize_loop_stuck) (simp_all add: literal_defs)
  qed
  then show "Option.bind (tokenize_loop ?t True 0)
      (\<lambda>toks. Some (concat (collect_safe toks []))) = None"
    by simp
qed

text \<open>
  Safe texts: putting safe texts together gives a safe text, a text without ESC is
  safe, and a safe text stays safe when characters other than ESC are taken off its
  front.
\<close>

lemma safe_text_append: "safe_text a \<Longrightarrow> safe_text b \<Longrightarrow> safe_text (a @ b)"
proof (induction a rule: safe_text.induct)
  case safe_Nil
  then show ?case by simp
next
  case (safe_Char c s)
  then show ?case by (simp add: safe_text.safe_Char)
next
  case (safe_Csi ps f s)
  then have "safe_text (ESC # ord CHR ''['' # ps @ f # (s @ b))"
    by (intro safe_text.safe_Csi) simp_all
  then show ?case by simp
qed

lemma safe_text_no_esc: "ESC \<notin> set s \<Longrightarrow> safe_text s"
  by (induction s) (auto intro: safe_text.intros)

lemma safe_text_concat: "(\<And>x. x \<in> set xs \<Longrightarrow> safe_text x) \<Longrightarrow> safe_text (concat xs)"
  by (induction xs) (auto intro: safe_text.intros safe_text_append)

lemma safe_text_drop_run:
  "safe_text s \<Longrightarrow> n \<le> length s \<Longrightarrow> (\<forall>m<n. s ! m \<noteq> ESC) \<Longrightarrow> safe_text (drop n s)"
proof (induction n arbitrary: s)
  case 0
  then show ?case by simp
next
  case (Suc n)
  then obtain c s' where s: "s = c # s'"
    by (cases s) auto
  with Suc.prems(3) have c: "c \<noteq> ESC"
    by auto
  from Suc.prems(1) s c have "safe_text s'"
    by (auto elim: safe_text_ConsE)
  moreover from Suc.prems s have "n \<le> length s'" "\<forall>m<n. s' ! m \<noteq> ESC"
    by auto
  ultimately show ?case
    using Suc.IH s by simp
qed

text \<open>
  The content of a CSI token is ESC, \<open>[\<close>, the parameter characters and the final byte.
\<close>

lemma slice_Cons: "i < j \<Longrightarrow> i < length t \<Longrightarrow> slice t i j = t ! i # slice t (i + 1) j"
proof -
  assume "i < j" and "i < length t"
  then have "drop i t = t ! i # drop (Suc i) t" and "j - i = Suc (j - (i + 1))"
    by (simp_all add: Cons_nth_drop_Suc)
  then show ?thesis
    by (simp add: slice_def)
qed

lemma slice_snoc: "i \<le> j \<Longrightarrow> j < length t \<Longrightarrow> slice t i (j + 1) = slice t i j @ [t ! j]"
proof -
  assume "i \<le> j" and "j < length t"
  then have "j + 1 - i = Suc (j - i)" and "j - i < length (drop i t)"
    and "drop i t ! (j - i) = t ! j"
    by simp_all
  then show ?thesis
    by (simp add: slice_def take_Suc_conv_app_nth)
qed

lemma csi_token_shape:
  assumes "t ! i = ESC" and "t ! (i + 1) = ord CHR ''[''" and "i + 2 \<le> j" and "j < length t"
  shows "slice t i (j + 1) = ESC # ord CHR ''['' # slice t (i + 2) j @ [t ! j]"
proof -
  have "slice t i (j + 1) = slice t i j @ [t ! j]"
    using assms by (intro slice_snoc) simp_all
  also have "slice t i j = t ! i # slice t (i + 1) j"
    using assms by (intro slice_Cons) simp_all
  also have "slice t (i + 1) j = t ! (i + 1) # slice t (i + 1 + 1) j"
    using assms by (intro slice_Cons) simp_all
  finally show ?thesis
    using assms by (simp add: numeral_2_eq_2)
qed

text \<open>
  Every token that is not dropped is a safe text, so whatever \<open>filter_safe\<close> returns is
  a safe text.
\<close>

lemma tokenize_step_tokens_safe:
  assumes "i < length t"
    and "tokenize_step t True i = Continue toks i' \<or> tokenize_step t True i = Break toks"
    and "tok \<in> set toks" and "fst tok \<noteq> Drop"
  shows "safe_text (snd tok)"
  using assms(1)
proof (cases rule: tokenize_step_cases[where safe_mode = True])
  case (csi j)
  with assms(2,3)
  have tok: "tok = (classify True (t ! j) (slice t i (j + 1)), slice t i (j + 1))"
    by auto
  have shape: "slice t i (j + 1) = ESC # ord CHR ''['' # slice t (i + 2) j @ [t ! j]"
    using csi by (intro csi_token_shape) simp_all
  have "set (slice t (i + 2) j) \<subseteq> set (ustr ''0123456789;?'')"
  proof
    fix x
    assume "x \<in> set (slice t (i + 2) j)"
    then obtain m where m: "m < length (slice t (i + 2) j)" "x = slice t (i + 2) j ! m"
      by (metis in_set_conv_nth)
    with csi have "m < j - (i + 2)" "x = t ! (i + 2 + m)"
      by (simp_all add: slice_def)
    with csi skip_params_scan[of "i + 2" "i + 2 + m" t] show "x \<in> set (ustr ''0123456789;?'')"
      by simp
  qed
  moreover have "t ! j \<notin> set (ustr ''0123456789;?'')"
    using csi skip_params_stop[of t "i + 2"] by simp
  moreover have "classify True (t ! j) (ESC # ord CHR ''['' # slice t (i + 2) j @ [t ! j]) \<noteq> Drop"
    using assms(4) tok shape by simp
  ultimately have "safe_text (ESC # ord CHR ''['' # slice t (i + 2) j @ t ! j # [])"
    by (intro safe_text.safe_Csi safe_text.safe_Nil)
  with tok shape show ?thesis
    by simp
next
  case (osc_closed k)
  with assms(2,3,4) show ?thesis by auto
next
  case osc_open
  with assms(2,3,4) show ?thesis by auto
next
  case text_end
  with assms(2,3) have tok: "tok = (Text, drop i t)"
    by auto
  have "ESC \<notin> set (drop i t)"
  proof
    assume "ESC \<in> set (drop i t)"
    then obtain m where "m < length (drop i t)" "drop i t ! m = ESC"
      by (metis in_set_conv_nth)
    then have "i + m < length t" "t ! (i + m) = ESC"
      by simp_all
    with str_find_first[OF text_end(1), of "i + m"] show False
      by simp
  qed
  with tok show ?thesis
    by (simp add: safe_text_no_esc)
next
  case (text_run k)
  with assms(2,3) have tok: "tok = (Text, slice t i k)"
    by auto
  have "ESC \<notin> set (slice t i k)"
  proof
    assume "ESC \<in> set (slice t i k)"
    then obtain m where "m < length (slice t i k)" "slice t i k ! m = ESC"
      by (metis in_set_conv_nth)
    with text_run have "i + m < k" "t ! (i + m) = ESC"
      by (simp_all add: slice_def)
    with str_find_first[OF text_run(1), of "i + m"] text_run(3) show False
      by simp
  qed
  with tok show ?thesis
    by (simp add: safe_text_no_esc)
next
  case stuck
  with assms(2,3) show ?thesis by auto
qed

lemma tokenize_loop_tokens_safe:
  assumes "tokenize_loop t True i = Some toks"
  shows "\<forall>tok\<in>set toks. fst tok \<noteq> Drop \<longrightarrow> safe_text (snd tok)"
proof -
  have "True \<longrightarrow> (\<forall>tok\<in>set toks. fst tok \<noteq> Drop \<longrightarrow> safe_text (snd tok))"
  proof (rule tokenize_loop.raw_induct
    [where P = "\<lambda>t s i toks. s \<longrightarrow> (\<forall>tok\<in>set toks. fst tok \<noteq> Drop \<longrightarrow> safe_text (snd tok))", OF _ assms])
    fix f t s i toks
    assume IH: "\<And>t s i toks. f t s i = Some toks \<Longrightarrow> s \<longrightarrow> (\<forall>tok\<in>set toks. fst tok \<noteq> Drop \<longrightarrow> safe_text (snd tok))"
      and body: "(if i < length t then
          (case tokenize_step t s i of
             Break toks \<Rightarrow> Some toks
           | Continue toks i' \<Rightarrow> Option.bind (f t s i') (\<lambda>rest. Some (toks @ rest)))
        else Some []) = Some toks"
    show "s \<longrightarrow> (\<forall>tok\<in>set toks. fst tok \<noteq> Drop \<longrightarrow> safe_text (snd tok))"
    proof
      assume s
      show "\<forall>tok\<in>set toks. fst tok \<noteq> Drop \<longrightarrow> safe_text (snd tok)"
      proof (cases "i < length t")
        case False
        with body show ?thesis by simp
      next
        case True
        show ?thesis
        proof (cases "tokenize_step t s i")
          case (Break b)
          with True body have "toks = b" by simp
          with Break True \<open>s\<close> tokenize_step_tokens_safe[where i = i and t = t and toks = toks] show ?thesis
            by auto
        next
          case (Continue c i')
          with True body obtain rest where r: "f t s i' = Some rest" and toks: "toks = c @ rest"
            by (auto split: Option.bind_splits)
          from IH[OF r] \<open>s\<close> have "\<forall>tok\<in>set rest. fst tok \<noteq> Drop \<longrightarrow> safe_text (snd tok)"
            by simp
          moreover from Continue True \<open>s\<close> tokenize_step_tokens_safe[where i = i and t = t and toks = c and i' = i']
          have "\<forall>tok\<in>set c. fst tok \<noteq> Drop \<longrightarrow> safe_text (snd tok)"
            by auto
          ultimately show ?thesis
            using toks by auto
        qed
      qed
    qed
  qed
  then show ?thesis by simp
qed

lemma filter_safe_output_safe:
  assumes "filter_safe t = Some u"
  shows "safe_text u"
proof -
  from assms obtain toks where toks: "tokenize_ansi t True = Some toks"
    and u: "u = concat (map snd (filter (\<lambda>tok. fst tok \<noteq> Drop) toks))"
    by (auto simp: filter_safe_def collect_safe_eq split: Option.bind_splits)
  from toks have "\<forall>tok\<in>set toks. fst tok \<noteq> Drop \<longrightarrow> safe_text (snd tok)"
    unfolding tokenize_ansi_def by (rule tokenize_loop_tokens_safe)
  then show ?thesis
    unfolding u by (intro safe_text_concat) auto
qed

text \<open>
  On a safe text the tokenizer ends and drops nothing, so \<open>filter_safe\<close> returns it
  unchanged. Hence \<open>filter_safe\<close> is idempotent wherever it returns.
\<close>

lemma drop_eq_Cons:
  assumes "drop k u = x # xs"
  shows "k < length u" and "u ! k = x" and "drop (Suc k) u = xs"
proof -
  from assms have "drop k u \<noteq> []"
    by simp
  then show k: "k < length u"
    by simp
  from Cons_nth_drop_Suc[OF k] assms show "u ! k = x" and "drop (Suc k) u = xs"
    by simp_all
qed

lemma skip_params_prefix:
  "drop k u = ps @ f # s \<Longrightarrow> set ps \<subseteq> set (ustr ''0123456789;?'')
    \<Longrightarrow> f \<notin> set (ustr ''0123456789;?'') \<Longrightarrow> skip_params u k = k + length ps"
proof (induction ps arbitrary: k)
  case Nil
  then have "k < length u" "u ! k = f"
    using drop_eq_Cons[of k u f s] by simp_all
  with Nil(3) show ?case
    by (subst skip_params.simps) simp
next
  case (Cons p ps)
  then have k: "k < length u" "u ! k = p" "drop (Suc k) u = ps @ f # s"
    using drop_eq_Cons[of k u p "ps @ f # s"] by simp_all
  with Cons.prems have "skip_params u k = skip_params u (k + 1)"
    by (subst skip_params.simps) simp
  also have "\<dots> = k + 1 + length ps"
    using Cons.IH[of "k + 1"] k(3) Cons.prems by simp
  finally show ?case
    by simp
qed

lemma safe_text_tokenizes:
  "safe_text (drop i u) \<Longrightarrow>
     \<exists>toks. tokenize_loop u True i = Some toks \<and> (\<forall>tok\<in>set toks. fst tok \<noteq> Drop)"
proof (induction "length u - i" arbitrary: i rule: less_induct)
  case less
  show ?case
  proof (cases "i < length u")
    case False
    then have "tokenize_loop u True i = Some []"
      by (subst tokenize_loop.simps) simp
    then show ?thesis
      by simp
  next
    case True
    then have d: "drop i u = u ! i # drop (Suc i) u"
      by (simp add: Cons_nth_drop_Suc)
    show ?thesis
    proof (cases "u ! i = ESC")
      case esc: True
      from less.prems d esc have "safe_text (ESC # drop (Suc i) u)"
        by simp
      then obtain ps f s where shape: "drop (Suc i) u = ord CHR ''['' # ps @ f # s"
        and ps: "set ps \<subseteq> set (ustr ''0123456789;?'')"
        and f: "f \<notin> set (ustr ''0123456789;?'')"
        and cls: "classify True f (ESC # ord CHR ''['' # ps @ [f]) \<noteq> Drop"
        and s: "safe_text s"
        by (auto elim: safe_text_ConsE)
      from drop_eq_Cons[OF shape]
      have i1: "Suc i < length u" "u ! Suc i = ord CHR ''[''" "drop (Suc (Suc i)) u = ps @ f # s"
        by simp_all
      define j where "j = i + 2 + length ps"
      have sk: "skip_params u (i + 2) = j"
        unfolding j_def using i1(3) ps f by (intro skip_params_prefix) simp_all
      have "drop j u = drop (length ps) (drop (Suc (Suc i)) u)"
        by (simp add: j_def add.commute)
      with i1(3) have dj: "drop j u = f # s"
        by simp
      from drop_eq_Cons[OF dj] have j: "j < length u" "u ! j = f" "drop (Suc j) u = s"
        by simp_all
      have c: "u ! i = ESC \<and> i + 1 < length u \<and> u ! (i + 1) = ord CHR ''[''
          \<and> skip_params u (i + 2) < length u"
        using esc i1 sk j by simp
      have "slice u (i + 2) j = take (length ps) (drop (Suc (Suc i)) u)"
        by (simp add: slice_def j_def)
      with i1(3) have mid: "slice u (i + 2) j = ps"
        by simp
      have seq: "slice u i (j + 1) = ESC # ord CHR ''['' # ps @ [f]"
        using csi_token_shape[of u i j] esc i1 j mid by (simp add: j_def)
      have "tokenize_step u True i =
        (let j = skip_params u (i + 2); final = u ! j; seq = slice u i (j + 1)
         in Continue [(classify True final seq, seq)] (j + 1))"
        by (simp only: tokenize_step_def if_P[OF c])
      then have step: "tokenize_step u True i
          = Continue [(classify True f (ESC # ord CHR ''['' # ps @ [f]),
                       ESC # ord CHR ''['' # ps @ [f])] (j + 1)"
        by (simp only: Let_def sk j(2) seq)
      have "length u - (j + 1) < length u - i"
        using j(1) by (simp add: j_def)
      with less.hyps[of "j + 1"] j(3) s
      obtain rest where rest: "tokenize_loop u True (j + 1) = Some rest"
        "\<forall>tok\<in>set rest. fst tok \<noteq> Drop"
        by auto
      from tokenize_loop_unfold_Continue[OF True step rest(1)] rest(2) cls show ?thesis
        by simp
    next
      case no_esc: False
      from True show ?thesis
      proof (cases rule: tokenize_step_cases[where safe_mode = True])
        case (csi j)
        with no_esc show ?thesis by simp
      next
        case (osc_closed k)
        with no_esc show ?thesis by simp
      next
        case osc_open
        with no_esc show ?thesis by simp
      next
        case text_end
        from tokenize_loop_unfold_Break[OF True text_end(2)] show ?thesis
          by simp
      next
        case (text_run k)
        have "\<forall>m<k - i. drop i u ! m \<noteq> ESC"
        proof (intro allI impI)
          fix m assume "m < k - i"
          with text_run str_find_first[OF text_run(1), of "i + m"] show "drop i u ! m \<noteq> ESC"
            by simp
        qed
        with less.prems text_run have "safe_text (drop (k - i) (drop i u))"
          using safe_text_drop_run[of "drop i u" "k - i"] by simp
        with text_run have "safe_text (drop k u)"
          by simp
        moreover have "length u - k < length u - i"
          using text_run by simp
        ultimately obtain rest where rest: "tokenize_loop u True k = Some rest"
          "\<forall>tok\<in>set rest. fst tok \<noteq> Drop"
          using less.hyps[of k] by auto
        from tokenize_loop_unfold_Continue[OF True text_run(4) rest(1)] rest(2) show ?thesis
          by simp
      next
        case stuck
        with no_esc show ?thesis by simp
      qed
    qed
  qed
qed

lemma filter_safe_fixes_safe_text:
  assumes "safe_text u"
  shows "filter_safe u = Some u"
proof -
  from safe_text_tokenizes[of 0 u] assms
  obtain toks where toks: "tokenize_ansi u True = Some toks" "\<forall>tok\<in>set toks. fst tok \<noteq> Drop"
    by (auto simp: tokenize_ansi_def)
  then have "filter (\<lambda>tok. fst tok \<noteq> Drop) toks = toks"
    by (simp add: filter_id_conv)
  with filter_safe_eq[OF toks(1)] tokenize_ansi_reassembles[OF toks(1)] show ?thesis
    by simp
qed

lemma filter_safe_idempotent_where_defined:
  "filter_safe t = Some u \<Longrightarrow> filter_safe u = Some u"
  by (intro filter_safe_fixes_safe_text filter_safe_output_safe)

section \<open>The iCE colour transform\<close>
















text \<open>
  \<open>parse_params\<close> reads a list of decimal numbers: the non-negative integers
  \<open>ps\<close>, written by \<open>str\<close> and joined by \<open>;\<close>, parse back to \<open>ps\<close>.
\<close>

lemma digits_chars: "digits n \<noteq> [] \<and> set (digits n) \<subseteq> set (ustr ''0123456789'')"
proof (induction n rule: digits.induct)
  case (1 n)
  have m: "ord CHR ''0'' + k \<in> set (ustr ''0123456789'')" if "k < 10" for k
  proof -
    from that have "k \<in> {0, 1, 2, 3, 4, 5, 6, 7, 8, 9}"
      by auto
    then show ?thesis
      by (auto simp: literal_defs)
  qed
  show ?case
  proof (cases "n < 10")
    case True
    with m[of n] show ?thesis
      by (subst (1 2) digits.simps) simp
  next
    case False
    with 1 m[of "n mod 10"] show ?thesis
      by (subst (1 2) digits.simps) simp
  qed
qed

lemma digits_value:
  "foldl (\<lambda>acc c. 10 * acc + (int c - int (ord CHR ''0''))) 0 (digits n) = int n"
proof (induction n rule: digits.induct)
  case (1 n)
  show ?case
  proof (cases "n < 10")
    case True
    then show ?thesis
      by (subst digits.simps) simp
  next
    case False
    with 1 have "foldl (\<lambda>acc c. 10 * acc + (int c - int (ord CHR ''0''))) 0 (digits n)
      = 10 * int (n div 10) + int (n mod 10)"
      by (subst digits.simps) simp
    then show ?thesis
      by (simp add: of_nat_div of_nat_mod)
  qed
qed

lemma py_int_py_str: "0 \<le> p \<Longrightarrow> py_int (py_str p) = Some p"
  using digits_chars[of "nat p"] digits_value[of "nat p"] by (auto simp: py_int_def py_str_def)

lemma py_str_chars: "0 \<le> p \<Longrightarrow> py_str p \<noteq> [] \<and> ord CHR '';'' \<notin> set (py_str p)"
proof -
  assume "0 \<le> p"
  moreover have "ord CHR '';'' \<notin> set (ustr ''0123456789'')"
    by (simp add: literal_defs)
  ultimately show ?thesis
    using digits_chars[of "nat p"] by (auto simp: py_str_def)
qed

lemma split_str_no_sep: "sep \<notin> set x \<Longrightarrow> split_str sep x = [x]"
  by (induction x) auto

lemma split_str_field: "sep \<notin> set x \<Longrightarrow> split_str sep (x @ sep # rest) = x # split_str sep rest"
  by (induction x) auto

lemma split_str_join:
  "xs \<noteq> [] \<Longrightarrow> (\<forall>x\<in>set xs. sep \<notin> set x) \<Longrightarrow> split_str sep (join [sep] xs) = xs"
proof (induction "[sep]" xs rule: join.induct)
  case 1
  then show ?case by simp
next
  case (2 x)
  then show ?case by (simp add: split_str_no_sep)
next
  case (3 x y ys)
  then show ?case by (simp add: split_str_field)
qed

lemma parse_params_canonical:
  assumes "\<forall>p\<in>set ps. 0 \<le> p"
  shows "parse_params (join (ustr '';'') (map py_str ps)) = Some ps"
proof (cases "ps = []")
  case True
  then show ?thesis
    by (simp add: parse_params_def)
next
  case False
  let ?xs = "map py_str ps"
  have sep: "ustr '';'' = [ord CHR '';'']"
    by (simp add: ustr_def)
  have f: "\<forall>x\<in>set ?xs. ord CHR '';'' \<notin> set x" "\<forall>x\<in>set ?xs. x \<noteq> []"
    using assms py_str_chars by auto
  with False have "split_str (ord CHR '';'') (join (ustr '';'') ?xs) = ?xs"
    unfolding sep by (intro split_str_join) simp_all
  moreover from f(2) have "filter (\<lambda>p. p \<noteq> []) ?xs = ?xs"
    by (simp add: filter_id_conv)
  moreover have "map py_int ?xs = map Some ps"
    using assms by (simp add: py_int_py_str)
  moreover have "those (map Some ps) = Some ps"
    by (induction ps) simp_all
  ultimately show ?thesis
    unfolding parse_params_def by (simp only:)
qed





section \<open>The metadata codec\<close>

text \<open>
  What \<open>rfind\<close> returns, when it is not \<open>-1\<close>, is the start of an occurrence, and no
  occurrence starts later.
\<close>

lemma rfind_from_found:
  "rfind_from d sub k = r \<Longrightarrow> r \<noteq> - 1 \<Longrightarrow>
     0 \<le> r \<and> nat r \<le> k \<and> take (length sub) (drop (nat r) d) = sub"
  by (induction k arbitrary: r) (auto split: if_splits simp del: of_nat_Suc)

lemma rfind_from_last:
  "rfind_from d sub k = r \<Longrightarrow> j \<le> k \<Longrightarrow> take (length sub) (drop j d) = sub \<Longrightarrow> int j \<le> r"
proof (induction k arbitrary: r)
  case 0
  then show ?case by (auto split: if_splits)
next
  case (Suc k)
  show ?case
  proof (cases "take (length sub) (drop (Suc k) d) = sub")
    case True
    with Suc.prems show ?thesis by auto
  next
    case False
    with Suc.prems have "j \<le> k" 
      by (cases "j = Suc k") auto
    with Suc False show ?thesis by auto
  qed
qed

lemma rfind_found:
  assumes "rfind d sub \<noteq> - 1"
  shows "0 \<le> rfind d sub \<and> nat (rfind d sub) + length sub \<le> length d
    \<and> take (length sub) (drop (nat (rfind d sub)) d) = sub"
proof -
  from assms have le: "length sub \<le> length d"
    and r: "rfind d sub = rfind_from d sub (length d - length sub)"
    by (auto simp: rfind_def split: if_splits)
  from rfind_from_found[OF r[symmetric] assms] le show ?thesis
    by auto
qed

lemma rfind_last:
  assumes "take (length sub) (drop j d) = sub" and "j + length sub \<le> length d"
  shows "int j \<le> rfind d sub"
proof -
  from assms(2) have "length sub \<le> length d" "j \<le> length d - length sub"
    by auto
  then show ?thesis
    using rfind_from_last[OF refl _ assms(1), of "length d - length sub"] by (simp add: rfind_def)
qed

lemma length_SAUCE: "length ''SAUCE'' = 5"
  by simp

lemmas rfind_SAUCE_found = rfind_found[of _ "''SAUCE''", unfolded length_SAUCE]

lemmas rfind_SAUCE_last = rfind_last[of "''SAUCE''", unfolded length_SAUCE]

lemma occurrence_in_range: "take 5 (drop k d) = ''SAUCE'' \<Longrightarrow> k + 5 \<le> length d"
proof -
  assume "take 5 (drop k d) = ''SAUCE''"
  then have "length (take 5 (drop k d)) = 5"
    by simp
  then show ?thesis
    by simp
qed

text \<open>
  Claim C5 says that for a buffer shorter than 128 bytes, or without the magic in the
  window \<open>data[-128:-123]\<close>, \<open>has_sauce\<close> is false and \<open>strip_sauce_tail\<close> returns its
  input. The first half holds. The second does not: the fallback of \<open>strip_sauce_tail\<close>
  cuts the buffer at the last \<open>SAUCE\<close> found anywhere in its last 512 bytes. The
  five-byte buffer \<open>SAUCE\<close> is shorter than 128 bytes, has no record, and is stripped to
  the empty buffer.
\<close>

theorem strip_sauce_tail_counterexample:
  "length ''SAUCE'' < 128 \<and> \<not> has_sauce ''SAUCE'' \<and> strip_sauce_tail ''SAUCE'' \<noteq> ''SAUCE''"
  by code_simp

text \<open>
  Claim C5 as amended. For a buffer shorter than 128 bytes, or without the magic in the
  window \<open>data[-128:-123]\<close>: \<open>has_sauce\<close> is false; \<open>strip_sauce_tail\<close> returns the input
  when every occurrence of \<open>SAUCE\<close> in it starts more than 512 bytes before the end (in
  particular when there is none); and when the last occurrence starts at index \<open>k\<close>, at
  most 512 bytes before the end, it returns the \<open>k\<close> bytes before that occurrence.
\<close>

theorem strip_sauce_tail_without_record:
  "(length d < 128 \<or> py_slice d (- 128) (- 123) \<noteq> ''SAUCE'') \<longrightarrow>
     \<not> has_sauce d
     \<and> ((\<forall>k<length d. take 5 (drop k d) = ''SAUCE'' \<longrightarrow> 512 < length d - k)
          \<longrightarrow> strip_sauce_tail d = d)
     \<and> (\<forall>k<length d.
           take 5 (drop k d) = ''SAUCE'' \<and> length d - k \<le> 512
           \<and> (\<forall>j<length d. take 5 (drop j d) = ''SAUCE'' \<longrightarrow> j \<le> k)
           \<longrightarrow> strip_sauce_tail d = take k d)"
proof (intro impI conjI allI)
  assume h: "length d < 128 \<or> py_slice d (- 128) (- 123) \<noteq> ''SAUCE''"
  then show "\<not> has_sauce d"
    by (auto simp: has_sauce_def)
  from h have s: "strip_sauce_tail d =
    (let last = rfind d ''SAUCE''
     in if last \<noteq> - 1 \<and> int (length d) - last \<le> 512 then py_slice d 0 last else d)"
    by (auto simp: strip_sauce_tail_def)
  {
    assume none: "\<forall>k<length d. take 5 (drop k d) = ''SAUCE'' \<longrightarrow> 512 < length d - k"
    show "strip_sauce_tail d = d"
    proof (cases "rfind d ''SAUCE'' \<noteq> - 1 \<and> int (length d) - rfind d ''SAUCE'' \<le> 512")
      case True
      then have f: "0 \<le> rfind d ''SAUCE''"
        "nat (rfind d ''SAUCE'') + 5 \<le> length d"
        "take 5 (drop (nat (rfind d ''SAUCE'')) d) = ''SAUCE''"
        using rfind_SAUCE_found[of d] by auto
      with none have "512 < length d - nat (rfind d ''SAUCE'')"
        by auto
      with True f(1) show ?thesis
        by linarith
    next
      case False
      with s show ?thesis
        by (auto simp: Let_def)
    qed
  }
  {
    fix k
    assume "k < length d"
      and k: "take 5 (drop k d) = ''SAUCE'' \<and> length d - k \<le> 512
        \<and> (\<forall>j<length d. take 5 (drop j d) = ''SAUCE'' \<longrightarrow> j \<le> k)"
    then have kr: "k + 5 \<le> length d"
      using occurrence_in_range by blast
    with k have le: "int k \<le> rfind d ''SAUCE''"
      using rfind_SAUCE_last[of k d] by simp
    then have ne: "rfind d ''SAUCE'' \<noteq> - 1"
      by auto
    from rfind_SAUCE_found[OF ne] k have "nat (rfind d ''SAUCE'') \<le> k"
      by auto
    with le have eq: "rfind d ''SAUCE'' = int k"
      by auto
    with k kr s show "strip_sauce_tail d = take k d"
      by (auto simp: Let_def py_slice_def)
  }
qed

theorem strip_sauce_tail_without_record_witness:
  "length ''Just some content'' < 128
   \<and> \<not> has_sauce ''Just some content''
   \<and> strip_sauce_tail ''Just some content'' = ''Just some content''
   \<and> length ''abSAUCEcd'' < 128
   \<and> take 5 (drop 2 ''abSAUCEcd'') = ''SAUCE''
   \<and> strip_sauce_tail ''abSAUCEcd'' = take 2 ''abSAUCEcd''"
proof -
  have a: "length ''Just some content'' < 128
      \<or> py_slice ''Just some content'' (- 128) (- 123) \<noteq> ''SAUCE''"
    by simp
  have b: "\<forall>k<length ''Just some content''.
         take 5 (drop k ''Just some content'') = ''SAUCE''
         \<longrightarrow> 512 < length ''Just some content'' - k"
    by (simp add: less_Suc_eq all_conj_distrib)
  have c: "length ''abSAUCEcd'' < 128 \<or> py_slice ''abSAUCEcd'' (- 128) (- 123) \<noteq> ''SAUCE''"
    by simp
  have d: "2 < length ''abSAUCEcd''"
    by simp
  have e: "take 5 (drop 2 ''abSAUCEcd'') = ''SAUCE'' \<and> length ''abSAUCEcd'' - 2 \<le> 512
        \<and> (\<forall>j<length ''abSAUCEcd''. take 5 (drop j ''abSAUCEcd'') = ''SAUCE'' \<longrightarrow> j \<le> 2)"
    by (simp add: less_Suc_eq all_conj_distrib)
  note plain = strip_sauce_tail_without_record[of "''Just some content''", THEN mp, OF a]
  note padded = strip_sauce_tail_without_record[of "''abSAUCEcd''", THEN mp, OF c]
  have f: "\<not> has_sauce ''Just some content''"
    by (rule plain[THEN conjunct1])
  have g: "strip_sauce_tail ''Just some content'' = ''Just some content''"
    by (rule plain[THEN conjunct2, THEN conjunct1, THEN mp, OF b])
  have h: "strip_sauce_tail ''abSAUCEcd'' = take 2 ''abSAUCEcd''"
    by (rule padded[THEN conjunct2, THEN conjunct2, THEN spec, THEN mp, OF d, THEN mp, OF e])
  have i: "length ''Just some content'' < 128" "length ''abSAUCEcd'' < 128"
    by simp_all
  show ?thesis
    by (intro conjI i f g h e[THEN conjunct1])
qed











section \<open>The size heuristics\<close>

text \<open>
  \<open>max_col\<close> and \<open>lines\<close> change only at a newline. On a text without newline the loop
  returns them as they were, whatever the text holds.
\<close>

lemma scan_columns_single_line:
  "ord CHR 0x0A \<notin> set t \<Longrightarrow> \<exists>cur. scan_columns t i ls c mx = (ls, cur, mx)"
proof (induction t i ls c mx rule: scan_columns.induct)
  case (1 t i ls c mx)
  show ?case
  proof (cases "i < length t")
    case False
    then show ?thesis
      by (subst scan_columns.simps) simp
  next
    case True
    with 1(5) have nl: "t ! i \<noteq> ord CHR 0x0A"
      by (metis nth_mem)
    show ?thesis
    proof (cases "t ! i = ord CHR 0x0D")
      case cr: True
      with True nl 1(2)[OF True nl cr 1(5)] show ?thesis
        by (subst scan_columns.simps) simp
    next
      case cr: False
      show ?thesis
      proof (cases "t ! i = ESC")
        case esc: True
        with True nl cr 1(3)[OF True nl cr esc 1(5)] show ?thesis
          by (subst scan_columns.simps) simp
      next
        case esc: False
        with True nl cr 1(4)[OF True nl cr esc 1(5)] show ?thesis
          by (subst scan_columns.simps) simp
      qed
    qed
  qed
qed

lemma analyze_bytes_single_line:
  assumes "ord CHR 0x0A \<notin> set (decode_cp437 hi (strip_sauce_tail data))"
  shows "analyze_bytes hi data =
    \<lparr>sauce_present = has_sauce data, est_cols = 0, est_rows = 1,
     suggested_width = 80, suggested_height = 25\<rparr>"
proof -
  obtain cur where "scan_columns (decode_cp437 hi (strip_sauce_tail data)) 0 [] 0 0 = ([], cur, 0)"
    using scan_columns_single_line[OF assms] by blast
  then show ?thesis
    by (simp add: analyze_bytes_def py_max_def)
qed

text \<open>
  Claim C4 says that for a single-line text of length \<open>N\<close> without escape sequences
  \<open>analyze\<close> reports \<open>N\<close> columns, one row, and the size 80 by 25. The code reports one
  row and 80 by 25, but no columns: the column count of the last line is never
  stored in \<open>max_col\<close>, so for the three bytes \<open>abc\<close> the estimate is 0, not 3.
\<close>

theorem analyze_bytes_single_line_reports_no_columns:
  "length ''abc'' = 3
   \<and> analyze_bytes hi ''abc'' =
      \<lparr>sauce_present = False, est_cols = 0, est_rows = 1,
       suggested_width = 80, suggested_height = 25\<rparr>"
proof -
  have "strip_sauce_tail ''abc'' = ''abc''" "\<not> has_sauce ''abc''"
    by code_simp+
  then show ?thesis
    using analyze_bytes_single_line[of hi "''abc''"] by (simp add: decode_cp437_def ord_def)
qed

end
